theory Spec2Isabelle
  imports Complex_Main "HOL-Library.Char_ord" "HOL-Library.List_Lexorder" "HOL-Library.Product_Lexorder"
begin

section \<open>The similarity scorer: difflib's SequenceMatcher\<close>

text \<open>
  \<^verbatim>\<open>faust/utils/text.py\<close> scores a candidate with
  \<^verbatim>\<open>SequenceMatcher(None, needle, key).ratio()\<close> of Python's standard library
  (\<^verbatim>\<open>Lib/difflib.py\<close>, CPython 3.11). The definitions of this section follow that file
  function by function, for the way the module calls it: \<^verbatim>\<open>isjunk\<close> is \<^verbatim>\<open>None\<close> and
  \<^verbatim>\<open>autojunk\<close> keeps its default \<^verbatim>\<open>True\<close>.

  Sequences are lists; indices and lengths are natural numbers (difflib never forms a
  negative index: the one place where it computes \<^verbatim>\<open>j-1\<close> for \<^verbatim>\<open>j = 0\<close> is a dictionary
  lookup that misses, written out in \<open>j2lenget\<close>). The float \<^verbatim>\<open>2.0 * matches / length\<close> is
  the rational number of the same value.
\<close>

subsection \<open>\<^verbatim>\<open>__chain_b\<close>: the index of the second sequence\<close>

text \<open>
  \<^verbatim>\<open>for i, elt in enumerate(b): indices = b2j.setdefault(elt, []); indices.append(i)\<close>
\<close>

definition chain_b_index :: "'a list \<Rightarrow> ('a \<rightharpoonup> nat list)" where
  "chain_b_index b =
     fold (\<lambda>(i, elt) b2j. b2j(elt \<mapsto> (case b2j elt of None \<Rightarrow> [] | Some indices \<Rightarrow> indices) @ [i]))
       (enumerate 0 b) Map.empty"

text \<open>
  \<^verbatim>\<open>isjunk\<close> is \<^verbatim>\<open>None\<close>, so the set \<^verbatim>\<open>bjunk\<close> stays empty and nothing is purged as junk.
\<close>

definition bjunk :: "'a set" where
  "bjunk = {}"

definition isbjunk :: "'a \<Rightarrow> bool" where
  "isbjunk elt = (elt \<in> bjunk)"

text \<open>
  The popular elements are purged when \<^verbatim>\<open>autojunk and n >= 200\<close>: an element whose index
  list is longer than \<^verbatim>\<open>ntest = n // 100 + 1\<close> is deleted from \<^verbatim>\<open>b2j\<close>.
\<close>

definition chain_b :: "'a list \<Rightarrow> ('a \<rightharpoonup> nat list)" where
  "chain_b b =
     (let b2j = chain_b_index b; n = length b in
      if n \<ge> 200 then
        (let ntest = n div 100 + 1 in
         (\<lambda>elt. case b2j elt of
                  None \<Rightarrow> None
                | Some idxs \<Rightarrow> if length idxs > ntest then None else Some idxs))
      else b2j)"

subsection \<open>\<^verbatim>\<open>find_longest_match\<close>\<close>

text \<open>\<^verbatim>\<open>j2lenget(j-1, 0)\<close>: the key \<^verbatim>\<open>-1\<close> is never in the dictionary.\<close>

definition j2lenget :: "(nat \<rightharpoonup> nat) \<Rightarrow> nat \<Rightarrow> nat" where
  "j2lenget j2len j =
     (case j of 0 \<Rightarrow> 0 | Suc j' \<Rightarrow> (case j2len j' of None \<Rightarrow> 0 | Some k \<Rightarrow> k))"

text \<open>
  The inner loop \<^verbatim>\<open>for j in b2j.get(a[i], nothing)\<close>, with its \<^verbatim>\<open>continue\<close> and its
  \<^verbatim>\<open>break\<close>. The state is \<^verbatim>\<open>newj2len\<close> and the best block so far,
  \<^verbatim>\<open>(besti, bestj, bestsize)\<close>.
\<close>

type_synonym block = "nat \<times> nat \<times> nat"

fun flm_inner ::
  "(nat \<rightharpoonup> nat) \<Rightarrow> nat \<Rightarrow> nat \<Rightarrow> nat \<Rightarrow> nat list \<Rightarrow> (nat \<rightharpoonup> nat) \<times> block \<Rightarrow> (nat \<rightharpoonup> nat) \<times> block"
where
  "flm_inner j2len i blo bhi [] st = st"
| "flm_inner j2len i blo bhi (j # js) (newj2len, besti, bestj, bestsize) =
     (if j < blo then flm_inner j2len i blo bhi js (newj2len, besti, bestj, bestsize)
      else if j \<ge> bhi then (newj2len, besti, bestj, bestsize)
      else
        (let k = j2lenget j2len j + 1 in
         if k > bestsize
         then flm_inner j2len i blo bhi js (newj2len(j \<mapsto> k), i + 1 - k, j + 1 - k, k)
         else flm_inner j2len i blo bhi js (newj2len(j \<mapsto> k), besti, bestj, bestsize)))"

text \<open>One pass of the outer loop \<^verbatim>\<open>for i in range(alo, ahi)\<close>, ending in \<^verbatim>\<open>j2len = newj2len\<close>.\<close>

definition flm_row ::
  "'a list \<Rightarrow> ('a \<rightharpoonup> nat list) \<Rightarrow> nat \<Rightarrow> nat \<Rightarrow> nat \<Rightarrow> (nat \<rightharpoonup> nat) \<times> block \<Rightarrow> (nat \<rightharpoonup> nat) \<times> block"
where
  "flm_row a b2j blo bhi i st =
     (case st of (j2len, best) \<Rightarrow>
        flm_inner j2len i blo bhi (case b2j (a ! i) of None \<Rightarrow> [] | Some js \<Rightarrow> js)
          (Map.empty, best))"

definition flm_scan ::
  "'a list \<Rightarrow> ('a \<rightharpoonup> nat list) \<Rightarrow> nat \<Rightarrow> nat \<Rightarrow> nat \<Rightarrow> nat \<Rightarrow> (nat \<rightharpoonup> nat) \<times> block"
where
  "flm_scan a b2j alo ahi blo bhi =
     fold (flm_row a b2j blo bhi) [alo..<ahi] (Map.empty, alo, blo, 0)"

text \<open>
  The four \<^verbatim>\<open>while\<close> loops that extend the best block: first by elements that are not
  junk (the popular ones, which are not keys of \<^verbatim>\<open>b2j\<close>), then by junk.
\<close>

function extend_left :: "bool \<Rightarrow> 'a list \<Rightarrow> 'a list \<Rightarrow> nat \<Rightarrow> nat \<Rightarrow> block \<Rightarrow> block" where
  "extend_left junk a b alo blo (besti, bestj, bestsize) =
     (if besti > alo \<and> bestj > blo \<and> isbjunk (b ! (bestj - 1)) = junk
         \<and> a ! (besti - 1) = b ! (bestj - 1)
      then extend_left junk a b alo blo (besti - 1, bestj - 1, bestsize + 1)
      else (besti, bestj, bestsize))"
  by pat_completeness auto
termination
  by (relation "measure (\<lambda>(junk, a, b, alo, blo, besti, bestj, bestsize). besti)") auto

function extend_right :: "bool \<Rightarrow> 'a list \<Rightarrow> 'a list \<Rightarrow> nat \<Rightarrow> nat \<Rightarrow> block \<Rightarrow> block" where
  "extend_right junk a b ahi bhi (besti, bestj, bestsize) =
     (if besti + bestsize < ahi \<and> bestj + bestsize < bhi \<and> isbjunk (b ! (bestj + bestsize)) = junk
         \<and> a ! (besti + bestsize) = b ! (bestj + bestsize)
      then extend_right junk a b ahi bhi (besti, bestj, bestsize + 1)
      else (besti, bestj, bestsize))"
  by pat_completeness auto
termination
  by (relation "measure (\<lambda>(junk, a, b, ahi, bhi, besti, bestj, bestsize). ahi - (besti + bestsize))") auto

definition find_longest_match ::
  "'a list \<Rightarrow> 'a list \<Rightarrow> ('a \<rightharpoonup> nat list) \<Rightarrow> nat \<Rightarrow> nat \<Rightarrow> nat \<Rightarrow> nat \<Rightarrow> block"
where
  "find_longest_match a b b2j alo ahi blo bhi =
     extend_right True a b ahi bhi
       (extend_left True a b alo blo
          (extend_right False a b ahi bhi
             (extend_left False a b alo blo
                (snd (flm_scan a b2j alo ahi blo bhi)))))"

subsection \<open>The block found lies inside the window\<close>

text \<open>
  Whatever the arguments, \<^verbatim>\<open>find_longest_match\<close> returns either an empty block at
  \<^verbatim>\<open>(alo, blo)\<close> or a block inside \<^verbatim>\<open>a[alo:ahi]\<close> and \<^verbatim>\<open>b[blo:bhi]\<close>. The loop of
  \<^verbatim>\<open>get_matching_blocks\<close> terminates because of it.
\<close>

definition block_ok :: "nat \<Rightarrow> nat \<Rightarrow> nat \<Rightarrow> nat \<Rightarrow> block \<Rightarrow> bool" where
  "block_ok alo ahi blo bhi blk =
     (case blk of (besti, bestj, bestsize) \<Rightarrow>
        if bestsize = 0 then besti = alo \<and> bestj = blo
        else alo \<le> besti \<and> besti + bestsize \<le> ahi \<and> blo \<le> bestj \<and> bestj + bestsize \<le> bhi)"

definition j2len_ok :: "nat \<Rightarrow> nat \<Rightarrow> nat \<Rightarrow> nat \<Rightarrow> (nat \<rightharpoonup> nat) \<Rightarrow> bool" where
  "j2len_ok alo blo bhi i j2len =
     (\<forall>j k. j2len j = Some k \<longrightarrow> blo \<le> j \<and> j < bhi \<and> k + blo \<le> j + 1 \<and> k + alo \<le> i)"

lemma j2lenget_bound:
  assumes "j2len_ok alo blo bhi i j2len" "blo \<le> j" "alo \<le> i"
  shows "j2lenget j2len j + blo \<le> j \<and> j2lenget j2len j + alo \<le> i"
  using assms by (auto simp: j2lenget_def j2len_ok_def split: nat.splits option.splits)

lemma flm_inner_ok:
  assumes "j2len_ok alo blo bhi i j2len" "alo \<le> i" "i < ahi"
  shows "j2len_ok alo blo bhi (Suc i) new \<Longrightarrow> block_ok alo ahi blo bhi best \<Longrightarrow>
         flm_inner j2len i blo bhi js (new, best) = (new', best') \<Longrightarrow>
         j2len_ok alo blo bhi (Suc i) new' \<and> block_ok alo ahi blo bhi best'"
proof (induction js arbitrary: new best)
  case Nil
  then show ?case by simp
next
  case (Cons j js)
  obtain besti bestj bestsize where best: "best = (besti, bestj, bestsize)"
    by (cases best) auto
  show ?case
  proof (cases "j < blo")
    case True
    with Cons best show ?thesis by simp
  next
    case lo: False
    show ?thesis
    proof (cases "j \<ge> bhi")
      case True
      with Cons lo best show ?thesis by simp
    next
      case hi: False
      define k where "k = j2lenget j2len j + 1"
      from j2lenget_bound[OF assms(1) _ assms(2), of j] lo
      have kb: "k + blo \<le> j + 1" "k + alo \<le> Suc i" by (auto simp: k_def)
      have new_ok: "j2len_ok alo blo bhi (Suc i) (new(j \<mapsto> k))"
        using Cons.prems(1) kb lo hi by (auto simp: j2len_ok_def)
      show ?thesis
      proof (cases "k > bestsize")
        case True
        have "block_ok alo ahi blo bhi (i + 1 - k, j + 1 - k, k)"
          using kb True assms(3) hi by (auto simp: block_ok_def k_def)
        moreover have "flm_inner j2len i blo bhi js (new(j \<mapsto> k), i + 1 - k, j + 1 - k, k) = (new', best')"
          using Cons.prems(3) lo hi True best by (simp add: k_def Let_def)
        ultimately show ?thesis using Cons.IH new_ok by blast
      next
        case False
        have "flm_inner j2len i blo bhi js (new(j \<mapsto> k), best) = (new', best')"
          using Cons.prems(3) lo hi False best by (simp add: k_def Let_def)
        then show ?thesis using Cons.IH new_ok Cons.prems(2) by blast
      qed
    qed
  qed
qed

lemma flm_scan_induct:
  assumes base: "P alo (Map.empty, alo, blo, 0)"
      and step: "\<And>i st. alo \<le> i \<Longrightarrow> i < ahi \<Longrightarrow> P i st \<Longrightarrow> P (Suc i) (flm_row a b2j blo bhi i st)"
      and le: "alo \<le> ahi"
    shows "P ahi (flm_scan a b2j alo ahi blo bhi)"
proof -
  have "alo \<le> i \<Longrightarrow> i \<le> ahi \<Longrightarrow> P i (fold (flm_row a b2j blo bhi) [alo..<i] (Map.empty, alo, blo, 0))" for i
  proof (induction i)
    case 0
    then show ?case using base by simp
  next
    case (Suc i)
    show ?case
    proof (cases "alo \<le> i")
      case True
      then show ?thesis using Suc step by simp
    next
      case False
      with Suc.prems have "alo = Suc i" by simp
      then show ?thesis using base by simp
    qed
  qed
  from this[of ahi] le show ?thesis by (simp add: flm_scan_def)
qed

lemma flm_scan_ok:
  "block_ok alo ahi blo bhi (snd (flm_scan a b2j alo ahi blo bhi))"
proof (cases "alo \<le> ahi")
  case True
  let ?P = "\<lambda>i st. j2len_ok alo blo bhi i (fst st) \<and> block_ok alo ahi blo bhi (snd st)"
  have "?P ahi (flm_scan a b2j alo ahi blo bhi)"
  proof (rule flm_scan_induct[where P = ?P, OF _ _ True])
    show "j2len_ok alo blo bhi alo (fst (Map.empty, alo, blo, 0)) \<and> block_ok alo ahi blo bhi (snd (Map.empty, alo, blo, 0::nat))"
      by (simp add: j2len_ok_def block_ok_def)
  next
    fix i st
    assume a: "alo \<le> i" "i < ahi" "j2len_ok alo blo bhi i (fst st) \<and> block_ok alo ahi blo bhi (snd st)"
    obtain j2len best where st: "st = (j2len, best)" by (cases st) auto
    obtain new' best' where r: "flm_row a b2j blo bhi i st = (new', best')"
      by (cases "flm_row a b2j blo bhi i st") auto
    have "j2len_ok alo blo bhi (Suc i) new' \<and> block_ok alo ahi blo bhi best'"
      by (rule flm_inner_ok[where j2len = j2len and new = Map.empty and best = best])
         (use a st r in \<open>auto simp: flm_row_def j2len_ok_def\<close>)
    then show "j2len_ok alo blo bhi (Suc i) (fst (flm_row a b2j blo bhi i st)) \<and> block_ok alo ahi blo bhi (snd (flm_row a b2j blo bhi i st))"
      using r by simp
  qed
  then show ?thesis by simp
next
  case False
  then show ?thesis by (simp add: flm_scan_def block_ok_def)
qed

declare extend_left.simps [simp del] extend_right.simps [simp del]

lemma extend_left_ok:
  "block_ok alo ahi blo bhi blk \<Longrightarrow> block_ok alo ahi blo bhi (extend_left junk a b alo blo blk)"
proof (induction junk a b alo blo blk rule: extend_left.induct)
  case (1 junk a b alo blo besti bestj bestsize)
  show ?case
  proof (cases "besti > alo \<and> bestj > blo \<and> isbjunk (b ! (bestj - 1)) = junk \<and> a ! (besti - 1) = b ! (bestj - 1)")
    case True
    have "block_ok alo ahi blo bhi (besti - 1, bestj - 1, bestsize + 1)"
      using "1.prems" True by (auto simp: block_ok_def split: if_splits)
    with "1.IH" True show ?thesis by (subst extend_left.simps) simp
  next
    case False
    with "1.prems" show ?thesis by (subst extend_left.simps) auto
  qed
qed

lemma extend_right_ok:
  "block_ok alo ahi blo bhi blk \<Longrightarrow> block_ok alo ahi blo bhi (extend_right junk a b ahi bhi blk)"
proof (induction junk a b ahi bhi blk rule: extend_right.induct)
  case (1 junk a b ahi bhi besti bestj bestsize)
  show ?case
  proof (cases "besti + bestsize < ahi \<and> bestj + bestsize < bhi \<and> isbjunk (b ! (bestj + bestsize)) = junk \<and> a ! (besti + bestsize) = b ! (bestj + bestsize)")
    case True
    have "block_ok alo ahi blo bhi (besti, bestj, bestsize + 1)"
      using "1.prems" True by (auto simp: block_ok_def split: if_splits)
    with "1.IH" True show ?thesis by (subst extend_right.simps) simp
  next
    case False
    with "1.prems" show ?thesis by (subst extend_right.simps) auto
  qed
qed

lemma find_longest_match_ok:
  "block_ok alo ahi blo bhi (find_longest_match a b b2j alo ahi blo bhi)"
  unfolding find_longest_match_def
  by (intro extend_right_ok extend_left_ok flm_scan_ok)

lemma find_longest_match_nonempty:
  assumes "find_longest_match a b b2j alo ahi blo bhi = (i, j, k)" "k \<noteq> 0"
  shows "alo \<le> i \<and> i + k \<le> ahi \<and> blo \<le> j \<and> j + k \<le> bhi"
  using find_longest_match_ok[of alo ahi blo bhi a b b2j] assms
  by (simp add: block_ok_def)

subsection \<open>\<^verbatim>\<open>get_matching_blocks\<close> and \<^verbatim>\<open>ratio\<close>\<close>

text \<open>
  The \<^verbatim>\<open>while queue:\<close> loop. \<^verbatim>\<open>queue\<close> is used as a stack (\<^verbatim>\<open>queue.pop()\<close> takes the
  last element, \<^verbatim>\<open>queue.append\<close> adds one after it): the model keeps the top of the stack
  at the head of the list, so the window appended last stands first.
\<close>

type_synonym window = "nat \<times> nat \<times> nat \<times> nat"

definition window_size :: "window \<Rightarrow> nat" where
  "window_size w = (case w of (alo, ahi, blo, bhi) \<Rightarrow> 2 * (ahi - alo) + 1)"

function get_matching_blocks_loop ::
  "'a list \<Rightarrow> 'a list \<Rightarrow> ('a \<rightharpoonup> nat list) \<Rightarrow> window list \<Rightarrow> block list \<Rightarrow> block list"
where
  "get_matching_blocks_loop a b b2j [] matching_blocks = matching_blocks"
| "get_matching_blocks_loop a b b2j ((alo, ahi, blo, bhi) # queue) matching_blocks =
     (case find_longest_match a b b2j alo ahi blo bhi of (i, j, k) \<Rightarrow>
        if k \<noteq> 0 then
          get_matching_blocks_loop a b b2j
            ((if i + k < ahi \<and> j + k < bhi then [(i + k, ahi, j + k, bhi)] else []) @
             (if alo < i \<and> blo < j then [(alo, i, blo, j)] else []) @ queue)
            (matching_blocks @ [(i, j, k)])
        else get_matching_blocks_loop a b b2j queue matching_blocks)"
  by pat_completeness auto
termination
proof (relation "measure (\<lambda>(a, b, b2j, queue, matching_blocks). sum_list (map window_size queue))",
       goal_cases)
  case 1
  show ?case by simp
next
  case (2 a b b2j alo ahi blo bhi queue matching_blocks i y j k)
  then have "find_longest_match a b b2j alo ahi blo bhi = (i, j, k)" "k \<noteq> 0"
    by (auto simp: prod_eq_iff)
  from find_longest_match_nonempty[OF this] \<open>k \<noteq> 0\<close> show ?case
    by (auto simp: window_size_def)
next
  case 3
  then show ?case by (simp add: window_size_def)
qed

text \<open>
  After \<^verbatim>\<open>matching_blocks.sort()\<close>, adjacent blocks are collapsed: the loop
  \<^verbatim>\<open>for i2, j2, k2 in matching_blocks\<close> with its state \<^verbatim>\<open>(i1, j1, k1)\<close> and the list
  \<^verbatim>\<open>non_adjacent\<close>, followed by the \<^verbatim>\<open>if k1:\<close> after the loop.
\<close>

fun collapse_adjacent :: "block list \<Rightarrow> block \<Rightarrow> block list \<Rightarrow> block list" where
  "collapse_adjacent [] (i1, j1, k1) non_adjacent =
     (if k1 \<noteq> 0 then non_adjacent @ [(i1, j1, k1)] else non_adjacent)"
| "collapse_adjacent ((i2, j2, k2) # matching_blocks) (i1, j1, k1) non_adjacent =
     (if i1 + k1 = i2 \<and> j1 + k1 = j2
      then collapse_adjacent matching_blocks (i1, j1, k1 + k2) non_adjacent
      else collapse_adjacent matching_blocks (i2, j2, k2)
             (if k1 \<noteq> 0 then non_adjacent @ [(i1, j1, k1)] else non_adjacent))"

definition get_matching_blocks :: "'a list \<Rightarrow> 'a list \<Rightarrow> ('a \<rightharpoonup> nat list) \<Rightarrow> block list" where
  "get_matching_blocks a b b2j =
     (let la = length a; lb = length b;
          matching_blocks = sort (get_matching_blocks_loop a b b2j [(0, la, 0, lb)] [])
      in collapse_adjacent matching_blocks (0, 0, 0) [] @ [(la, lb, 0)])"

text \<open>
  \<^verbatim>\<open>_calculate_ratio(matches, length)\<close> and \<^verbatim>\<open>SequenceMatcher.ratio\<close>; the matcher is
  built by \<^verbatim>\<open>SequenceMatcher(None, a, b)\<close>, whose \<^verbatim>\<open>set_seq2\<close> calls \<^verbatim>\<open>__chain_b\<close>.
\<close>

definition calculate_ratio :: "nat \<Rightarrow> nat \<Rightarrow> rat" where
  "calculate_ratio matches len =
     (if len \<noteq> 0 then 2 * of_nat matches / of_nat len else 1)"

definition ratio :: "'a list \<Rightarrow> 'a list \<Rightarrow> rat" where
  "ratio a b =
     (let matches = sum_list (map (\<lambda>(i, j, n). n) (get_matching_blocks a b (chain_b b)))
      in calculate_ratio matches (length a + length b))"

section \<open>\<^verbatim>\<open>faust/utils/text.py\<close>\<close>

text \<open>
  Python strings are lists of characters. Where a function looks at character classes
  (\<^verbatim>\<open>split\<close>, \<^verbatim>\<open>capitalize\<close>) the embedding covers ASCII text. A Python float (a ratio, the
  threshold \<^verbatim>\<open>min_ratio\<close>) is the rational number it stands for: the ratio \<^verbatim>\<open>2.0 * M / T\<close> is
  the correctly rounded quotient, rounding is monotone, and two distinct quotients
  \<^verbatim>\<open>2M/T\<close> and \<^verbatim>\<open>p/q\<close> with \<^verbatim>\<open>T * q < 2 ** 52\<close> never round to the same double, so
  \<^verbatim>\<open>ratio >= min_ratio\<close> on doubles is \<open>\<ge>\<close> on these rationals. A threshold that is
  infinite or not a number has no rational and is left out. An iterable of strings is the
  finite list of what it yields. Writing to standard output (the \<^verbatim>\<open>print\<close> in
  \<^verbatim>\<open>_abbr_abrupt\<close>) is not part of the embedding, and keyword arguments are passed in
  full, so the defaults of the signatures do not appear. \<^verbatim>\<open>abbr_fqdn\<close>, \<^verbatim>\<open>shorten_fqdn\<close> and
  \<^verbatim>\<open>pluralize\<close> are not embedded: nothing below is about them.
\<close>

subsection \<open>String methods the module calls\<close>

text \<open>\<^verbatim>\<open>s.replace(old, new)\<close> for a one-character \<^verbatim>\<open>old\<close>.\<close>

definition replace :: "string \<Rightarrow> char \<Rightarrow> string \<Rightarrow> string" where
  "replace s old new = concat (map (\<lambda>c. if c = old then new else [c]) s)"

text \<open>\<^verbatim>\<open>str.isspace\<close> on ASCII: tab to carriage return, the four separators, the space.\<close>

definition isspace :: "char \<Rightarrow> bool" where
  "isspace c = (let n = (of_char c :: nat) in (9 \<le> n \<and> n \<le> 13) \<or> (28 \<le> n \<and> n \<le> 32))"

text \<open>
  \<^verbatim>\<open>s.split()\<close> with no separator: runs of whitespace separate the words, and no empty
  word is produced. \<open>word\<close> is the word being read.
\<close>

fun split_from :: "string \<Rightarrow> string \<Rightarrow> string list" where
  "split_from word [] = (if word = [] then [] else [word])"
| "split_from word (c # s) =
     (if isspace c then (if word = [] then split_from [] s else word # split_from [] s)
      else split_from (word @ [c]) s)"

definition split :: "string \<Rightarrow> string list" where
  "split s = split_from [] s"

definition upper :: "char \<Rightarrow> char" where
  "upper c = (let n = (of_char c :: nat) in if 97 \<le> n \<and> n \<le> 122 then char_of (n - 32) else c)"

definition lower :: "char \<Rightarrow> char" where
  "lower c = (let n = (of_char c :: nat) in if 65 \<le> n \<and> n \<le> 90 then char_of (n + 32) else c)"

text \<open>\<^verbatim>\<open>s.capitalize()\<close>: the first character in upper case, the rest in lower case.\<close>

definition capitalize :: "string \<Rightarrow> string" where
  "capitalize s = (case s of [] \<Rightarrow> [] | c # cs \<Rightarrow> upper c # map lower cs)"

text \<open>\<^verbatim>\<open>sep.join(parts)\<close>\<close>

fun join :: "string \<Rightarrow> string list \<Rightarrow> string" where
  "join sep [] = []"
| "join sep [p] = p"
| "join sep (p # q # parts) = p @ sep @ join sep (q # parts)"

text \<open>\<^verbatim>\<open>s[:n]\<close>: a negative \<^verbatim>\<open>n\<close> counts from the end, and the slice is clipped to the string.\<close>

definition slice_to :: "string \<Rightarrow> int \<Rightarrow> string" where
  "slice_to s n = (if n \<ge> 0 then take (nat n) s else take (nat (int (length s) + n)) s)"

text \<open>\<^verbatim>\<open>s.rsplit(sep, 1)\<close> for a one-character \<^verbatim>\<open>sep\<close>: at most one split, at the last \<^verbatim>\<open>sep\<close>.\<close>

definition rsplit1 :: "string \<Rightarrow> char \<Rightarrow> string list" where
  "rsplit1 s sep =
     (if sep \<in> set s
      then [rev (tl (dropWhile (\<lambda>c. c \<noteq> sep) (rev s))), rev (takeWhile (\<lambda>c. c \<noteq> sep) (rev s))]
      else [s])"

text \<open>
  \<^verbatim>\<open>x and y\<close> and \<^verbatim>\<open>x or y\<close> on strings: the empty string is the false one, and the operators
  return one of their operands.
\<close>

definition str_and :: "string \<Rightarrow> string \<Rightarrow> string" where
  "str_and x y = (if x = [] then x else y)"

definition str_or :: "string \<Rightarrow> string \<Rightarrow> string" where
  "str_or x y = (if x = [] then y else x)"

text \<open>
  \<^verbatim>\<open>fmt.format(alt=...)\<close>. The embedding covers the templates whose replacement fields are
  all the plain \<^verbatim>\<open>{alt}\<close>, with the escapes \<^verbatim>\<open>{{\<close> and \<^verbatim>\<open>}}\<close>: a brace that is neither
  raises \<^verbatim>\<open>ValueError\<close>, and any other replacement field (another name, an index, a
  conversion or a format specification) ends in \<open>Other_field\<close>, where Python raises
  \<^verbatim>\<open>KeyError\<close> or \<^verbatim>\<open>IndexError\<close> or formats in a way not modelled here.
\<close>

datatype format_error = ValueError | Other_field string

fun read_field :: "string \<Rightarrow> (string \<times> string) option" where
  "read_field [] = None"
| "read_field (c # s) =
     (if c = CHR ''}'' then Some ([], s)
      else (case read_field s of None \<Rightarrow> None | Some (field, rest) \<Rightarrow> Some (c # field, rest)))"

lemma read_field_length: "read_field s = Some (field, rest) \<Longrightarrow> length rest < length s"
  by (induction s arbitrary: field rest) (auto split: if_splits option.splits)

function format_alt :: "string \<Rightarrow> string \<Rightarrow> format_error + string" where
  "format_alt [] alt = Inr []"
| "format_alt (c # fmt) alt =
     (if c = CHR ''{'' then
        (if fmt \<noteq> [] \<and> hd fmt = CHR ''{'' then map_sum id (\<lambda>out. CHR ''{'' # out) (format_alt (tl fmt) alt)
         else (case read_field fmt of
                 None \<Rightarrow> Inl ValueError
               | Some (field, rest) \<Rightarrow>
                   if field = ''alt'' then map_sum id (\<lambda>out. alt @ out) (format_alt rest alt)
                   else Inl (Other_field field)))
      else if c = CHR ''}'' then
        (if fmt \<noteq> [] \<and> hd fmt = CHR ''}'' then map_sum id (\<lambda>out. CHR ''}'' # out) (format_alt (tl fmt) alt)
         else Inl ValueError)
      else map_sum id (\<lambda>out. c # out) (format_alt fmt alt))"
  by pat_completeness auto
termination
  by (relation "measure (\<lambda>(fmt, alt). length fmt)") (auto dest: read_field_length)

subsection \<open>The fuzzy matcher\<close>

text \<open>
  \<^verbatim>\<open>class FuzzyMatch(NamedTuple): ratio: float; value: str\<close> is a pair, compared as Python
  compares tuples: by the ratio, then by the value (strings by their code points).
\<close>

type_synonym FuzzyMatch = "rat \<times> string"

definition match_ratio :: "FuzzyMatch \<Rightarrow> rat" where
  "match_ratio m = fst m"

definition match_value :: "FuzzyMatch \<Rightarrow> string" where
  "match_value m = snd m"

text \<open>The generator \<^verbatim>\<open>fuzzymatch_iter\<close>, as the list of what it yields.\<close>

fun fuzzymatch_iter :: "string list \<Rightarrow> string \<Rightarrow> rat \<Rightarrow> FuzzyMatch list" where
  "fuzzymatch_iter [] needle min_ratio = []"
| "fuzzymatch_iter (key # haystack) needle min_ratio =
     (let r = ratio needle key in
      if r \<ge> min_ratio then (r, key) # fuzzymatch_iter haystack needle min_ratio
      else fuzzymatch_iter haystack needle min_ratio)"

definition fuzzymatch :: "string list \<Rightarrow> string \<Rightarrow> rat \<Rightarrow> string list" where
  "fuzzymatch haystack needle min_ratio = map match_value (fuzzymatch_iter haystack needle min_ratio)"

definition fuzzymatch_choices ::
  "string list \<Rightarrow> string \<Rightarrow> string \<Rightarrow> string \<Rightarrow> string \<Rightarrow> rat \<Rightarrow> format_error + string"
where
  "fuzzymatch_choices haystack needle fmt_many fmt_one fmt_none min_ratio =
     (let alt = fuzzymatch haystack needle min_ratio in
      if alt = [] then Inr fmt_none
      else format_alt (if length alt > 1 then fmt_many else fmt_one) (join '', '' alt))"

definition didyoumean ::
  "string list \<Rightarrow> string \<Rightarrow> string \<Rightarrow> string \<Rightarrow> string \<Rightarrow> rat \<Rightarrow> format_error + string"
where
  "didyoumean haystack needle fmt_many fmt_one fmt_none min_ratio =
     fuzzymatch_choices haystack needle fmt_many fmt_one fmt_none min_ratio"

text \<open>
  \<^verbatim>\<open>sorted(xs, reverse=True)\<close>: CPython reverses the list, sorts it stably in ascending
  order and reverses it again.
\<close>

definition sorted_reverse :: "'a::linorder list \<Rightarrow> 'a list" where
  "sorted_reverse xs = rev (sort (rev xs))"

text \<open>\<^verbatim>\<open>[0]\<close> on an empty list raises \<^verbatim>\<open>IndexError\<close>, which \<^verbatim>\<open>fuzzymatch_best\<close> catches.\<close>

definition fuzzymatch_best :: "string list \<Rightarrow> string \<Rightarrow> rat \<Rightarrow> string option" where
  "fuzzymatch_best haystack needle min_ratio =
     (case sorted_reverse (fuzzymatch_iter haystack needle min_ratio) of
        [] \<Rightarrow> None
      | m # _ \<Rightarrow> Some (match_value m))"

subsection \<open>Abbreviation and title case\<close>

definition title :: "string \<Rightarrow> string" where
  "title s = join '' '' (map capitalize (split (replace (replace s CHR ''-'' '' '') CHR ''_'' '''')))"

text \<open>\<^verbatim>\<open>_abbr_word_boundary\<close> and \<^verbatim>\<open>_abbr_abrupt\<close> (an Isabelle name starts with a letter;
  \<open>max'\<close> is the parameter \<^verbatim>\<open>max\<close>).\<close>

definition abbr_word_boundary :: "string \<Rightarrow> int \<Rightarrow> string \<Rightarrow> string" where
  "abbr_word_boundary s max' suffix =
     (if int (length s) > max'
      then str_or (str_and suffix (slice_to s (max' - int (length suffix)) @ suffix)) (slice_to s max')
      else s)"

definition abbr_abrupt :: "string \<Rightarrow> int \<Rightarrow> string \<Rightarrow> string" where
  "abbr_abrupt s max' suffix =
     (if max' \<noteq> 0 \<and> int (length s) \<ge> max'
      then hd (rsplit1 (slice_to s max') CHR '' '') @ suffix
      else s)"

definition abbr :: "string \<Rightarrow> int \<Rightarrow> string \<Rightarrow> bool \<Rightarrow> string" where
  "abbr s max' suffix words =
     (if words then abbr_word_boundary s max' suffix else abbr_abrupt s max' suffix)"

section \<open>Properties of the fuzzy matcher\<close>

lemma fuzzymatch_iter_filter:
  "fuzzymatch_iter haystack needle min_ratio =
     map (\<lambda>key. (ratio needle key, key)) (filter (\<lambda>key. ratio needle key \<ge> min_ratio) haystack)"
  by (induction haystack) (simp_all add: Let_def)

lemma set_fuzzymatch_iter:
  "set (fuzzymatch_iter haystack needle min_ratio) =
     {(ratio needle key, key) | key. key \<in> set haystack \<and> ratio needle key \<ge> min_ratio}"
  by (auto simp: fuzzymatch_iter_filter)

lemma sort_Nil_iff: "sort xs = [] \<longleftrightarrow> xs = []"
  by (metis length_sort length_0_conv)

lemma sorted_le_last: "sorted xs \<Longrightarrow> x \<in> set xs \<Longrightarrow> x \<le> last xs"
  by (induction xs) auto

lemma sorted_reverse_Nil: "sorted_reverse xs = [] \<longleftrightarrow> xs = []"
  by (simp add: sorted_reverse_def sort_Nil_iff)

lemma hd_sorted_reverse:
  assumes "xs \<noteq> []"
  shows "hd (sorted_reverse xs) \<in> set xs \<and> (\<forall>x \<in> set xs. x \<le> hd (sorted_reverse xs))"
proof -
  let ?ys = "sort (rev xs)"
  have ne: "?ys \<noteq> []" using assms by (simp add: sort_Nil_iff)
  have hd: "hd (sorted_reverse xs) = last ?ys"
    using ne by (simp add: sorted_reverse_def hd_rev)
  have "last ?ys \<in> set ?ys" using ne by (rule last_in_set)
  moreover have "x \<le> last ?ys" if "x \<in> set xs" for x
    using sorted_le_last[of ?ys x] that by simp
  ultimately show ?thesis using hd by simp
qed

lemma fuzzymatch_best_None:
  "fuzzymatch_best haystack needle min_ratio = None \<longleftrightarrow>
     (\<forall>u \<in> set haystack. ratio needle u < min_ratio)"
proof -
  have "fuzzymatch_best haystack needle min_ratio = None \<longleftrightarrow>
          sorted_reverse (fuzzymatch_iter haystack needle min_ratio) = []"
    by (simp add: fuzzymatch_best_def split: list.splits)
  also have "\<dots> \<longleftrightarrow> fuzzymatch_iter haystack needle min_ratio = []"
    by (rule sorted_reverse_Nil)
  also have "\<dots> \<longleftrightarrow> set (fuzzymatch_iter haystack needle min_ratio) = {}"
    by simp
  also have "\<dots> \<longleftrightarrow> (\<forall>u \<in> set haystack. ratio needle u < min_ratio)"
    unfolding set_fuzzymatch_iter by (auto simp: not_le)
  finally show ?thesis .
qed

lemma fuzzymatch_best_Some:
  assumes "fuzzymatch_best haystack needle min_ratio = Some v"
  shows "v \<in> set haystack" "ratio needle v \<ge> min_ratio"
    "\<forall>u \<in> set haystack. ratio needle u \<ge> min_ratio \<longrightarrow>
        ratio needle u < ratio needle v \<or> (ratio needle u = ratio needle v \<and> u \<le> v)"
proof -
  let ?ms = "fuzzymatch_iter haystack needle min_ratio"
  from assms have "sorted_reverse ?ms \<noteq> []"
    by (auto simp: fuzzymatch_best_def split: list.splits)
  then have ne: "?ms \<noteq> []"
    by (simp add: sorted_reverse_Nil)
  from assms have v: "v = snd (hd (sorted_reverse ?ms))"
    by (auto simp: fuzzymatch_best_def match_value_def split: list.splits)
  from hd_sorted_reverse[OF ne]
  have mem: "hd (sorted_reverse ?ms) \<in> set ?ms"
    and top: "\<forall>x \<in> set ?ms. x \<le> hd (sorted_reverse ?ms)" by simp_all
  from mem obtain key where key: "hd (sorted_reverse ?ms) = (ratio needle key, key)"
    "key \<in> set haystack" "ratio needle key \<ge> min_ratio"
    unfolding set_fuzzymatch_iter by blast
  with v have vk: "v = key" by simp
  show "v \<in> set haystack" "ratio needle v \<ge> min_ratio" using key vk by simp_all
  show "\<forall>u \<in> set haystack. ratio needle u \<ge> min_ratio \<longrightarrow>
        ratio needle u < ratio needle v \<or> (ratio needle u = ratio needle v \<and> u \<le> v)"
  proof (intro ballI impI)
    fix u assume "u \<in> set haystack" "ratio needle u \<ge> min_ratio"
    then have "(ratio needle u, u) \<in> set ?ms" unfolding set_fuzzymatch_iter by blast
    with top key(1) vk have "(ratio needle u, u) \<le> (ratio needle v, v)" by auto
    then show "ratio needle u < ratio needle v \<or> (ratio needle u = ratio needle v \<and> u \<le> v)"
      by (auto simp: less_eq_prod_def)
  qed
qed

text \<open>
  C1. Whenever \<^verbatim>\<open>fuzzymatch_best\<close> returns a value \<open>v\<close>, it is an element of the haystack whose
  ratio with the needle reaches \<open>min_ratio\<close>; no element of the haystack that reaches
  \<open>min_ratio\<close> has a strictly greater ratio, and every element with the same ratio is
  lexically at most \<open>v\<close>. It returns nothing exactly when no element reaches \<open>min_ratio\<close>.
\<close>

theorem fuzzymatch_best_correct:
  "(\<forall>v. fuzzymatch_best haystack needle min_ratio = Some v \<longrightarrow>
        v \<in> set haystack \<and> ratio needle v \<ge> min_ratio
        \<and> (\<forall>u \<in> set haystack. ratio needle u \<ge> min_ratio \<longrightarrow> ratio needle u \<le> ratio needle v)
        \<and> (\<forall>u \<in> set haystack. ratio needle u = ratio needle v \<longrightarrow> u \<le> v))
   \<and> ((\<forall>u \<in> set haystack. ratio needle u < min_ratio) \<longleftrightarrow>
        fuzzymatch_best haystack needle min_ratio = None)"
proof (intro conjI allI impI)
  fix v assume best: "fuzzymatch_best haystack needle min_ratio = Some v"
  note props = fuzzymatch_best_Some[OF best]
  show "v \<in> set haystack" "ratio needle v \<ge> min_ratio" by (rule props)+
  show "\<forall>u \<in> set haystack. ratio needle u \<ge> min_ratio \<longrightarrow> ratio needle u \<le> ratio needle v"
    using props(3) by auto
  show "\<forall>u \<in> set haystack. ratio needle u = ratio needle v \<longrightarrow> u \<le> v"
    using props(2,3) by auto
next
  show "(\<forall>u \<in> set haystack. ratio needle u < min_ratio) \<longleftrightarrow>
        fuzzymatch_best haystack needle min_ratio = None"
    by (simp add: fuzzymatch_best_None)
qed

theorem fuzzymatch_best_correct_witness:
  "fuzzymatch_best [''ab'', ''orange'', ''ba''] ''a'' (3/5) = Some ''ba''
   \<and> ''ba'' \<in> set [''ab'', ''orange'', ''ba'']
   \<and> ratio ''a'' ''ba'' \<ge> 3/5
   \<and> ratio ''a'' ''orange'' < 3/5
   \<and> ratio ''a'' ''ab'' = ratio ''a'' ''ba'' \<and> ''ab'' \<le> ''ba''
   \<and> fuzzymatch_best [''orange''] ''a'' (3/5) = None"
proof -
  have best: "fuzzymatch_best [''ab'', ''orange'', ''ba''] ''a'' (3/5) = Some ''ba''"
    by code_simp
  have eq: "ratio ''a'' ''ab'' = ratio ''a'' ''ba''"
    by code_simp
  have low: "ratio ''a'' ''orange'' < 3/5"
    by code_simp
  have none: "\<forall>u \<in> set [''orange'']. ratio ''a'' u < 3/5"
    using low by simp
  note spec1 = fuzzymatch_best_correct[of "[''ab'', ''orange'', ''ba'']" "''a''" "3/5"]
  from spec1 best
  have mem: "''ba'' \<in> set [''ab'', ''orange'', ''ba'']"
    and ge: "ratio ''a'' ''ba'' \<ge> 3/5"
    and ties: "\<forall>u \<in> set [''ab'', ''orange'', ''ba'']. ratio ''a'' u = ratio ''a'' ''ba'' \<longrightarrow> u \<le> ''ba''"
    by blast+
  have "''ab'' \<in> set [''ab'', ''orange'', ''ba'']" by simp
  with ties eq have le: "''ab'' \<le> ''ba''" by blast
  from fuzzymatch_best_correct[of "[''orange'']" "''a''" "3/5"] none
  have "fuzzymatch_best [''orange''] ''a'' (3/5) = None" by blast
  with best mem ge low eq le show ?thesis by blast
qed

text \<open>
  C5. \<^verbatim>\<open>fuzzymatch_iter\<close> yields exactly the candidates whose ratio with the needle is at
  least \<open>min_ratio\<close>, each paired with that ratio, in the order of the haystack.
\<close>

theorem fuzzymatch_iter_exact:
  "fuzzymatch_iter haystack needle min_ratio =
     map (\<lambda>key. (ratio needle key, key)) (filter (\<lambda>key. ratio needle key \<ge> min_ratio) haystack)
   \<and> map match_value (fuzzymatch_iter haystack needle min_ratio) =
       filter (\<lambda>key. ratio needle key \<ge> min_ratio) haystack
   \<and> map match_ratio (fuzzymatch_iter haystack needle min_ratio) =
       map (ratio needle) (map match_value (fuzzymatch_iter haystack needle min_ratio))"
  by (simp add: fuzzymatch_iter_filter match_value_def match_ratio_def comp_def)

theorem fuzzymatch_iter_exact_witness:
  "fuzzymatch_iter [''stop'', ''strt'', ''start''] ''strt'' (3/5) = [(1, ''strt''), (8/9, ''start'')]"
proof -
  have "map (\<lambda>key. (ratio ''strt'' key, key))
          (filter (\<lambda>key. ratio ''strt'' key \<ge> 3/5) [''stop'', ''strt'', ''start''])
        = [(1, ''strt''), (8/9, ''start'')]"
    by code_simp
  with fuzzymatch_iter_exact[of "[''stop'', ''strt'', ''start'']" "''strt''" "3/5"]
  show ?thesis by (elim conjE) (rule trans)
qed

text \<open>
  C10. With \<^verbatim>\<open>words=False\<close> and \<^verbatim>\<open>max\<close> equal to 0, \<^verbatim>\<open>abbr\<close> returns the string as it is,
  whatever the string and the suffix: \<^verbatim>\<open>if max and len(s) >= max\<close> takes 0 for "no limit".
\<close>

theorem abbr_zero_unchanged: "abbr s 0 suffix False = s"
  by (simp add: abbr_def abbr_abrupt_def)

theorem abbr_zero_unchanged_witness: "abbr ''hello world'' 0 ''...'' False = ''hello world''"
  using abbr_zero_unchanged[of "''hello world''" "''...''"] by simp

section \<open>Properties of the similarity ratio\<close>

subsection \<open>The number of matches\<close>

definition total_size :: "block list \<Rightarrow> nat" where
  "total_size blocks = sum_list (map (\<lambda>(i, j, n). n) blocks)"

definition window_cap :: "window \<Rightarrow> nat" where
  "window_cap w = (case w of (alo, ahi, blo, bhi) \<Rightarrow> min (ahi - alo) (bhi - blo))"

lemma total_size_simps [simp]:
  "total_size [] = 0"
  "total_size ((i, j, n) # blocks) = n + total_size blocks"
  "total_size (xs @ ys) = total_size xs + total_size ys"
  by (simp_all add: total_size_def)

lemma total_size_insort: "total_size (insort x xs) = total_size [x] + total_size xs"
  by (induction xs) (auto simp: total_size_def)

lemma total_size_sort: "total_size (sort xs) = total_size xs"
proof (induction xs)
  case Nil
  then show ?case by simp
next
  case (Cons x xs)
  then show ?case
    by (simp add: total_size_insort) (simp add: total_size_def)
qed

lemma total_size_collapse:
  "total_size (collapse_adjacent blocks (i1, j1, k1) non_adjacent) =
     total_size blocks + k1 + total_size non_adjacent"
  by (induction blocks "(i1, j1, k1)" non_adjacent arbitrary: i1 j1 k1 rule: collapse_adjacent.induct)
     auto

lemma total_size_get_matching_blocks:
  "total_size (get_matching_blocks a b b2j) =
     total_size (get_matching_blocks_loop a b b2j [(0, length a, 0, length b)] [])"
  by (simp add: get_matching_blocks_def Let_def total_size_collapse total_size_sort)

lemma ratio_total_size:
  "ratio a b =
     calculate_ratio (total_size (get_matching_blocks_loop a b (chain_b b) [(0, length a, 0, length b)] []))
       (length a + length b)"
  unfolding ratio_def Let_def total_size_get_matching_blocks[symmetric]
  by (simp add: total_size_def)

lemma loop_total_size_le:
  "total_size (get_matching_blocks_loop a b b2j queue blocks)
     \<le> total_size blocks + sum_list (map window_cap queue)"
proof (induction a b b2j queue blocks rule: get_matching_blocks_loop.induct)
  case (1 a b b2j matching_blocks)
  then show ?case by simp
next
  case (2 a b b2j alo ahi blo bhi queue matching_blocks)
  obtain i j k where flm: "find_longest_match a b b2j alo ahi blo bhi = (i, j, k)"
    by (cases "find_longest_match a b b2j alo ahi blo bhi") auto
  show ?case
  proof (cases "k = 0")
    case True
    with "2.IH"(2)[OF flm[symmetric] refl] flm show ?thesis
      by (simp add: window_cap_def)
  next
    case False
    from find_longest_match_nonempty[OF flm False]
    have bounds: "alo \<le> i" "i + k \<le> ahi" "blo \<le> j" "j + k \<le> bhi" by simp_all
    let ?new = "(if i + k < ahi \<and> j + k < bhi then [(i + k, ahi, j + k, bhi)] else []) @
                (if alo < i \<and> blo < j then [(alo, i, blo, j)] else [])"
    have cap: "sum_list (map window_cap ?new) + k \<le> window_cap (alo, ahi, blo, bhi)"
      using bounds by (auto simp: window_cap_def)
    from "2.IH"(1)[OF flm[symmetric] refl] False
    have "total_size (get_matching_blocks_loop a b b2j (?new @ queue) (matching_blocks @ [(i, j, k)]))
            \<le> total_size (matching_blocks @ [(i, j, k)]) + sum_list (map window_cap (?new @ queue))"
      by simp
    moreover have "get_matching_blocks_loop a b b2j ((alo, ahi, blo, bhi) # queue) matching_blocks =
        get_matching_blocks_loop a b b2j (?new @ queue) (matching_blocks @ [(i, j, k)])"
      using flm False by simp
    ultimately show ?thesis using cap by simp
  qed
qed

lemma matches_le:
  "total_size (get_matching_blocks_loop a b b2j [(0, length a, 0, length b)] [])
     \<le> min (length a) (length b)"
  using loop_total_size_le[of a b b2j "[(0, length a, 0, length b)]" "[]"]
  by (simp add: window_cap_def)

lemma ratio_bounds: "0 \<le> ratio a b \<and> ratio a b \<le> 1"
proof -
  let ?m = "total_size (get_matching_blocks_loop a b (chain_b b) [(0, length a, 0, length b)] [])"
  have "2 * ?m \<le> length a + length b"
    using matches_le[of a b "chain_b b"] by simp
  then have "2 * (of_nat ?m :: rat) \<le> of_nat (length a + length b)"
    by (metis of_nat_le_iff of_nat_mult of_nat_numeral)
  then show ?thesis
    unfolding ratio_total_size calculate_ratio_def
    by (auto simp: divide_le_eq)
qed

lemma ratio_Nil_Nil: "ratio [] [] = 1"
  by (simp add: ratio_total_size calculate_ratio_def)

lemma ratio_Nil_right: "a \<noteq> [] \<Longrightarrow> ratio a [] = 0"
  using matches_le[of a "[]" "chain_b []"]
  by (simp add: ratio_total_size calculate_ratio_def)

lemma ratio_Nil_left: "b \<noteq> [] \<Longrightarrow> ratio [] b = 0"
  using matches_le[of "[]" b "chain_b b"]
  by (simp add: ratio_total_size calculate_ratio_def)

section \<open>The claims about the scorer\<close>

text \<open>
  C6. The similarity ratio of two empty strings is 1, and the ratio of a non-empty string
  with the empty string is 0, whichever of the two is the empty one.
\<close>

theorem ratio_empty:
  "ratio ([] :: string) [] = 1 \<and> ((a :: string) \<noteq> [] \<longrightarrow> ratio a [] = 0 \<and> ratio [] a = 0)"
  by (simp add: ratio_Nil_Nil ratio_Nil_right ratio_Nil_left)

theorem ratio_empty_witness:
  "ratio ([] :: string) [] = 1 \<and> ratio ''abc'' '''' = 0 \<and> ratio '''' ''abc'' = 0"
  using ratio_empty[of "''abc''"] by simp

text \<open>
  C4, as the specification states it: the ratio of \<open>(a, b)\<close> equals the ratio of \<open>(b, a)\<close>
  for all strings. It fails: \<^verbatim>\<open>find_longest_match\<close> prefers the block that starts earliest
  in its first sequence, so the blocks, and their total, depend on the order.
\<close>

theorem ratio_symmetric_counterexample:
  "ratio ''tide'' ''diet'' = 1/4 \<and> ratio ''diet'' ''tide'' = 1/2
   \<and> ratio ''tide'' ''diet'' \<noteq> ratio ''diet'' ''tide''"
proof -
  have a: "ratio ''tide'' ''diet'' = 1/4" by code_simp
  have b: "ratio ''diet'' ''tide'' = 1/2" by code_simp
  show ?thesis unfolding a b by simp
qed

text \<open>
  C4, amended. The ratio of \<open>(a, b)\<close> equals the ratio of \<open>(b, a)\<close> when one of the two
  strings is empty or the two are equal, and in either order it lies between 0 and 1.
\<close>

theorem ratio_symmetric_degenerate:
  "((a :: string) = [] \<or> b = [] \<or> a = b \<longrightarrow> ratio a b = ratio b a)
   \<and> 0 \<le> ratio a b \<and> ratio a b \<le> 1 \<and> 0 \<le> ratio b a \<and> ratio b a \<le> 1"
proof -
  have "ratio a b = ratio b a" if "a = [] \<or> b = [] \<or> a = b"
  proof (cases "a = b")
    case True
    then show ?thesis by simp
  next
    case False
    with that consider "a = []" "b \<noteq> []" | "b = []" "a \<noteq> []" by auto
    then show ?thesis
      by cases (simp_all add: ratio_Nil_left ratio_Nil_right)
  qed
  then show ?thesis using ratio_bounds[of a b] ratio_bounds[of b a] by blast
qed

theorem ratio_symmetric_degenerate_witness:
  "ratio ''tide'' '''' = ratio '''' ''tide'' \<and> 0 \<le> ratio ''tide'' '''' \<and> ratio ''tide'' '''' \<le> 1"
  using ratio_symmetric_degenerate[of "''tide''" "''''"] by simp

section \<open>The claims about the helpers\<close>

text \<open>
  C7. \<^verbatim>\<open>title\<close> is claimed to split on space, hyphen and underscore, so that
  \<^verbatim>\<open>title("foo-bar_baz")\<close> is \<^verbatim>\<open>"Foo Bar Baz"\<close>. The code replaces the hyphen by a space
  but the underscore by the empty string, which joins the words on its two sides.
\<close>

theorem title_underscore_joins:
  "title ''foo-bar_baz'' = ''Foo Barbaz'' \<and> title ''foo-bar_baz'' \<noteq> ''Foo Bar Baz''
   \<and> title ''foo-bar baz'' = ''Foo Bar Baz''"
proof -
  have a: "title ''foo-bar_baz'' = ''Foo Barbaz''" by code_simp
  have b: "title ''foo-bar baz'' = ''Foo Bar Baz''" by code_simp
  show ?thesis unfolding a b by simp
qed

text \<open>
  C8. With \<^verbatim>\<open>words=True\<close>, \<^verbatim>\<open>abbr\<close> is claimed to cut at a word boundary. The code of
  \<^verbatim>\<open>_abbr_word_boundary\<close> cuts at \<^verbatim>\<open>max - len(suffix)\<close> characters wherever that falls:
  here inside the word \<^verbatim>\<open>hello\<close>.
\<close>

theorem abbr_words_splits_word:
  "abbr ''hello world'' 7 ''...'' True = ''hell...''"
  by code_simp

section \<open>The claims about suggestions and degenerate inputs\<close>

lemma fuzzymatch_filter:
  "fuzzymatch haystack needle min_ratio = filter (\<lambda>key. ratio needle key \<ge> min_ratio) haystack"
  by (simp add: fuzzymatch_def fuzzymatch_iter_filter match_value_def comp_def)

text \<open>
  C2, as the specification states it: the candidates put in place of \<^verbatim>\<open>{alt}\<close> are sorted by
  descending ratio, and the scenario with \<^verbatim>\<open>start\<close> and \<^verbatim>\<open>stop\<close> returns
  \<^verbatim>\<open>one of start, stop\<close>. Neither holds: \<^verbatim>\<open>stop\<close> scores 0.5 against \<^verbatim>\<open>strt\<close> and is
  left out, and two candidates that pass are listed as the haystack has them, here with
  the lower ratio first.
\<close>

theorem fuzzymatch_choices_sorted_counterexample:
  "fuzzymatch_choices [''start'', ''stop''] ''strt'' ''one of {alt}'' ''{alt}'' '''' (3/5) = Inr ''start''
   \<and> ratio ''strt'' ''stop'' = 1/2
   \<and> fuzzymatch_choices [''star'', ''strt''] ''strt'' ''one of {alt}'' ''{alt}'' '''' (3/5)
       = Inr ''one of star, strt''
   \<and> ratio ''strt'' ''star'' = 3/4 \<and> ratio ''strt'' ''strt'' = 1"
proof -
  have a: "fuzzymatch_choices [''start'', ''stop''] ''strt'' ''one of {alt}'' ''{alt}'' '''' (3/5) = Inr ''start''"
    by code_simp
  have b: "ratio ''strt'' ''stop'' = 1/2" by code_simp
  have c: "fuzzymatch_choices [''star'', ''strt''] ''strt'' ''one of {alt}'' ''{alt}'' '''' (3/5)
       = Inr ''one of star, strt''"
    by code_simp
  have d: "ratio ''strt'' ''star'' = 3/4" by code_simp
  have e: "ratio ''strt'' ''strt'' = 1" by code_simp
  from a b c d e show ?thesis by blast
qed

text \<open>
  C2, amended. The candidates put in place of \<^verbatim>\<open>{alt}\<close> by \<^verbatim>\<open>fuzzymatch_choices\<close> (and so
  by \<^verbatim>\<open>didyoumean\<close>) are the elements of the haystack whose ratio with the needle is at
  least \<open>min_ratio\<close>, in the order of the haystack, joined by a comma and a space:
  \<^verbatim>\<open>fmt_none\<close> is returned when there is none, \<^verbatim>\<open>fmt_one\<close> is formatted when there is one and
  \<^verbatim>\<open>fmt_many\<close> when there are more.
\<close>

theorem fuzzymatch_choices_haystack_order:
  "fuzzymatch haystack needle min_ratio = filter (\<lambda>key. ratio needle key \<ge> min_ratio) haystack
   \<and> fuzzymatch_choices haystack needle fmt_many fmt_one fmt_none min_ratio =
       (case filter (\<lambda>key. ratio needle key \<ge> min_ratio) haystack of
          [] \<Rightarrow> Inr fmt_none
        | [key] \<Rightarrow> format_alt fmt_one key
        | key # key' # keys \<Rightarrow> format_alt fmt_many (key @ '', '' @ join '', '' (key' # keys)))
   \<and> didyoumean haystack needle fmt_many fmt_one fmt_none min_ratio =
       fuzzymatch_choices haystack needle fmt_many fmt_one fmt_none min_ratio"
  by (simp add: fuzzymatch_choices_def didyoumean_def fuzzymatch_filter Let_def split: list.splits)

theorem fuzzymatch_choices_haystack_order_witness:
  "fuzzymatch [''star'', ''stop'', ''strt''] ''strt'' (3/5) = [''star'', ''strt'']
   \<and> fuzzymatch_choices [''star'', ''stop'', ''strt''] ''strt'' ''one of {alt}'' ''{alt}'' '''' (3/5)
       = Inr ''one of star, strt''
   \<and> fuzzymatch_choices [''start'', ''stop''] ''strt'' ''one of {alt}'' ''{alt}'' '''' (3/5)
       = Inr ''start''"
proof -
  have f1: "filter (\<lambda>key. ratio ''strt'' key \<ge> 3/5) [''star'', ''stop'', ''strt''] = [''star'', ''strt'']"
    by code_simp
  have f2: "filter (\<lambda>key. ratio ''strt'' key \<ge> 3/5) [''start'', ''stop''] = [''start'']"
    by code_simp
  have g1: "format_alt ''one of {alt}'' (''star'' @ '', '' @ join '', '' [''strt'']) = Inr ''one of star, strt''"
    by code_simp
  have g2: "format_alt ''{alt}'' ''start'' = Inr ''start''"
    by code_simp
  note t1 = fuzzymatch_choices_haystack_order[of "[''star'', ''stop'', ''strt'']" "''strt''" "3/5"
      "''one of {alt}''" "''{alt}''" "''''"]
  note t2 = fuzzymatch_choices_haystack_order[of "[''start'', ''stop'']" "''strt''" "3/5"
      "''one of {alt}''" "''{alt}''" "''''"]
  from t1 have "fuzzymatch [''star'', ''stop'', ''strt''] ''strt'' (3/5) = [''star'', ''strt'']"
    unfolding f1 by (rule conjunct1)
  moreover from t1 have "fuzzymatch_choices [''star'', ''stop'', ''strt''] ''strt'' ''one of {alt}'' ''{alt}'' '''' (3/5)
       = Inr ''one of star, strt''"
    unfolding f1 list.case g1 by (elim conjE)
  moreover from t2 have "fuzzymatch_choices [''start'', ''stop''] ''strt'' ''one of {alt}'' ''{alt}'' '''' (3/5)
       = Inr ''start''"
    unfolding f2 list.case g2 by (elim conjE)
  ultimately show ?thesis by blast
qed

text \<open>
  C9, as the specification states it: an empty haystack, an empty needle or a threshold
  outside \<open>[0, 1]\<close> gives an empty sequence, \<^verbatim>\<open>None\<close> and \<^verbatim>\<open>fmt_none\<close>. An empty needle
  matches the empty candidate with ratio 1, and a negative threshold lets every candidate
  through.
\<close>

theorem degenerate_inputs_counterexample:
  "fuzzymatch_iter [''''] '''' (3/5) = [(1, '''')]
   \<and> fuzzymatch_best [''''] '''' (3/5) = Some ''''
   \<and> fuzzymatch_choices [''''] '''' ''one of {alt}'' ''{alt}!'' ''none'' (3/5) = Inr ''!''
   \<and> fuzzymatch [''xyz''] ''abc'' (- 1/2) = [''xyz'']
   \<and> fuzzymatch_best [''xyz''] ''abc'' (- 1/2) = Some ''xyz''"
proof -
  have a: "fuzzymatch_iter [''''] '''' (3/5) = [(1, '''')]" by code_simp
  have b: "fuzzymatch_best [''''] '''' (3/5) = Some ''''" by code_simp
  have c: "fuzzymatch_choices [''''] '''' ''one of {alt}'' ''{alt}!'' ''none'' (3/5) = Inr ''!''"
    by code_simp
  have d: "fuzzymatch [''xyz''] ''abc'' (- 1/2) = [''xyz'']" by code_simp
  have e: "fuzzymatch_best [''xyz''] ''abc'' (- 1/2) = Some ''xyz''" by code_simp
  from a b c d e show ?thesis by blast
qed

text \<open>
  C9, amended. With an empty haystack, or with a threshold above 1, \<^verbatim>\<open>fuzzymatch_iter\<close> and
  \<^verbatim>\<open>fuzzymatch\<close> yield nothing, \<^verbatim>\<open>fuzzymatch_best\<close> returns \<^verbatim>\<open>None\<close>, and
  \<^verbatim>\<open>fuzzymatch_choices\<close> and \<^verbatim>\<open>didyoumean\<close> return \<^verbatim>\<open>fmt_none\<close>, without an error. An empty
  needle with a threshold in \<open>(0, 1]\<close> matches exactly the candidates that are the empty
  string, and a threshold of 0 or less matches every candidate.
\<close>

theorem degenerate_inputs:
  "fuzzymatch_iter [] needle min_ratio = []
   \<and> fuzzymatch [] needle min_ratio = []
   \<and> fuzzymatch_best [] needle min_ratio = None
   \<and> fuzzymatch_choices [] needle fmt_many fmt_one fmt_none min_ratio = Inr fmt_none
   \<and> didyoumean [] needle fmt_many fmt_one fmt_none min_ratio = Inr fmt_none
   \<and> (min_ratio > 1 \<longrightarrow>
        fuzzymatch_iter haystack needle min_ratio = []
        \<and> fuzzymatch haystack needle min_ratio = []
        \<and> fuzzymatch_best haystack needle min_ratio = None
        \<and> fuzzymatch_choices haystack needle fmt_many fmt_one fmt_none min_ratio = Inr fmt_none
        \<and> didyoumean haystack needle fmt_many fmt_one fmt_none min_ratio = Inr fmt_none)
   \<and> (0 < min_ratio \<and> min_ratio \<le> 1 \<longrightarrow>
        fuzzymatch haystack [] min_ratio = filter (\<lambda>key. key = []) haystack)
   \<and> (min_ratio \<le> 0 \<longrightarrow> fuzzymatch haystack needle min_ratio = haystack)"
proof -
  have empty: "fuzzymatch_iter [] needle min_ratio = []" by simp
  have high: "fuzzymatch_iter haystack needle min_ratio = []" if "min_ratio > 1"
  proof -
    have "\<not> ratio needle key \<ge> min_ratio" for key
      using ratio_bounds[of needle key] that by simp
    then show ?thesis by (simp add: fuzzymatch_iter_filter)
  qed
  have derived: "fuzzymatch h needle min_ratio = []
      \<and> fuzzymatch_best h needle min_ratio = None
      \<and> fuzzymatch_choices h needle fmt_many fmt_one fmt_none min_ratio = Inr fmt_none
      \<and> didyoumean h needle fmt_many fmt_one fmt_none min_ratio = Inr fmt_none"
    if "fuzzymatch_iter h needle min_ratio = []" for h
    using that
    by (simp add: fuzzymatch_def fuzzymatch_best_def sorted_reverse_def fuzzymatch_choices_def
        didyoumean_def)
  have needle: "fuzzymatch haystack [] min_ratio = filter (\<lambda>key. key = []) haystack"
    if "0 < min_ratio" "min_ratio \<le> 1"
  proof -
    have "(ratio [] key \<ge> min_ratio) = (key = [])" for key :: string
      using that by (cases "key = []") (simp_all add: ratio_Nil_Nil ratio_Nil_left)
    then show ?thesis by (simp add: fuzzymatch_filter)
  qed
  have low: "fuzzymatch haystack needle min_ratio = haystack" if "min_ratio \<le> 0"
  proof -
    have "ratio needle key \<ge> min_ratio" for key
      using ratio_bounds[of needle key] that by simp
    then show ?thesis by (simp add: fuzzymatch_filter)
  qed
  from empty derived[OF empty] high derived[OF high] needle low show ?thesis
    by blast
qed

theorem degenerate_inputs_witness:
  "fuzzymatch_iter [''start'', ''stop''] ''strt'' (3/2) = []
   \<and> fuzzymatch_best [''start'', ''stop''] ''strt'' (3/2) = None
   \<and> fuzzymatch_choices [''start'', ''stop''] ''strt'' ''one of {alt}'' ''{alt}'' ''none'' (3/2) = Inr ''none''
   \<and> fuzzymatch [''start'', '''', ''stop''] '''' (3/5) = ['''']
   \<and> fuzzymatch [''start'', ''stop''] ''xyz'' 0 = [''start'', ''stop'']"
proof -
  have h: "(1::rat) < 3/2" and m: "(0::rat) < 3/5 \<and> (3/5::rat) \<le> 1" and l: "(0::rat) \<le> 0"
    by simp_all
  note t1 = degenerate_inputs[of "''strt''" "3/2" "''one of {alt}''" "''{alt}''" "''none''"
      "[''start'', ''stop'']"]
  note t2 = degenerate_inputs[of "''''" "3/5" "''one of {alt}''" "''{alt}''" "''none''"
      "[''start'', '''', ''stop'']"]
  note t3 = degenerate_inputs[of "''xyz''" "0" "''one of {alt}''" "''{alt}''" "''none''"
      "[''start'', ''stop'']"]
  from t1 h have a: "fuzzymatch_iter [''start'', ''stop''] ''strt'' (3/2) = []"
    "fuzzymatch_best [''start'', ''stop''] ''strt'' (3/2) = None"
    "fuzzymatch_choices [''start'', ''stop''] ''strt'' ''one of {alt}'' ''{alt}'' ''none'' (3/2) = Inr ''none''"
    by blast+
  from t2 m have "fuzzymatch [''start'', '''', ''stop''] '''' (3/5)
      = filter (\<lambda>key. key = []) [''start'', '''', ''stop'']"
    by blast
  then have b: "fuzzymatch [''start'', '''', ''stop''] '''' (3/5) = ['''']" by simp
  from t3 l have c: "fuzzymatch [''start'', ''stop''] ''xyz'' 0 = [''start'', ''stop'']"
    by blast
  from a b c show ?thesis by blast
qed

section \<open>A string against itself\<close>

subsection \<open>What \<^verbatim>\<open>__chain_b\<close> builds\<close>

text \<open>
  Every index list of \<^verbatim>\<open>b2j\<close> is strictly ascending and holds exactly the positions of
  its key in \<^verbatim>\<open>b\<close>.
\<close>

definition index_ok :: "'a list \<Rightarrow> ('a \<rightharpoonup> nat list) \<Rightarrow> bool" where
  "index_ok b b2j =
     (\<forall>elt js. b2j elt = Some js \<longrightarrow>
        sorted_wrt (<) js \<and> set js = {j. j < length b \<and> b ! j = elt})"

lemma chain_b_index_snoc:
  "chain_b_index (xs @ [x]) =
     (chain_b_index xs)(x \<mapsto> (case chain_b_index xs x of None \<Rightarrow> [] | Some indices \<Rightarrow> indices) @ [length xs])"
  by (simp add: chain_b_index_def enumerate_append_eq)

lemma chain_b_index_mem: "x \<in> set xs \<Longrightarrow> chain_b_index xs x \<noteq> None"
  by (induction xs rule: rev_induct) (auto simp: chain_b_index_snoc)

lemma chain_b_index_ok: "index_ok b (chain_b_index b)"
proof (induction b rule: rev_induct)
  case Nil
  then show ?case by (simp add: index_ok_def chain_b_index_def)
next
  case (snoc x xs)
  show ?case
    unfolding index_ok_def
  proof (intro allI impI)
    fix elt js
    assume js: "chain_b_index (xs @ [x]) elt = Some js"
    show "sorted_wrt (<) js \<and> set js = {j. j < length (xs @ [x]) \<and> (xs @ [x]) ! j = elt}"
    proof (cases "elt = x")
      case False
      with js have old: "chain_b_index xs elt = Some js"
        by (simp add: chain_b_index_snoc)
      with snoc have "sorted_wrt (<) js" "set js = {j. j < length xs \<and> xs ! j = elt}"
        by (auto simp: index_ok_def)
      moreover have "{j. j < length (xs @ [x]) \<and> (xs @ [x]) ! j = elt} = {j. j < length xs \<and> xs ! j = elt}"
        using False by (auto simp: nth_append less_Suc_eq)
      ultimately show ?thesis by simp
    next
      case True
      define old where "old = (case chain_b_index xs x of None \<Rightarrow> [] | Some indices \<Rightarrow> indices)"
      from js True have js_eq: "js = old @ [length xs]"
        by (simp add: chain_b_index_snoc old_def)
      have old: "sorted_wrt (<) old \<and> set old \<subseteq> {j. j < length xs \<and> xs ! j = x}
                 \<and> (x \<in> set xs \<longrightarrow> set old = {j. j < length xs \<and> xs ! j = x})"
      proof (cases "chain_b_index xs x")
        case None
        have "x \<notin> set xs"
        proof
          assume "x \<in> set xs"
          then have "chain_b_index xs x \<noteq> None"
            by (rule chain_b_index_mem)
          with None show False by simp
        qed
        with None show ?thesis by (simp add: old_def)
      next
        case (Some l)
        with snoc show ?thesis by (auto simp: old_def index_ok_def)
      qed
      have notin: "set old = {j. j < length xs \<and> xs ! j = x}"
      proof (cases "x \<in> set xs")
        case True
        with old show ?thesis by simp
      next
        case False
        then have "{j. j < length xs \<and> xs ! j = x} = {}"
          by (auto simp: in_set_conv_nth)
        with old show ?thesis by auto
      qed
      have "sorted_wrt (<) js"
        using old notin by (auto simp: js_eq sorted_wrt_append)
      moreover have "{j. j < length (xs @ [x]) \<and> (xs @ [x]) ! j = elt}
                     = insert (length xs) {j. j < length xs \<and> xs ! j = x}"
        using True by (auto simp: nth_append less_Suc_eq)
      ultimately show ?thesis using notin by (simp add: js_eq)
    qed
  qed
qed

lemma chain_b_ok: "index_ok b (chain_b b)"
  using chain_b_index_ok[of b]
  by (auto simp: chain_b_def Let_def index_ok_def split: option.splits if_splits)

subsection \<open>The run of indexed elements that ends at a position\<close>

text \<open>
  \<open>diag_run K lo r\<close> counts the positions \<open>r, r - 1, \<dots>\<close> down to \<open>lo\<close> that satisfy \<open>K\<close>
  without a gap: the length \<^verbatim>\<open>j2len\<close> records on the diagonal, when \<open>K\<close> says which
  elements are keys of \<^verbatim>\<open>b2j\<close>.
\<close>

fun diag_run :: "(nat \<Rightarrow> bool) \<Rightarrow> nat \<Rightarrow> nat \<Rightarrow> nat" where
  "diag_run K lo 0 = (if K 0 \<and> lo = 0 then 1 else 0)"
| "diag_run K lo (Suc r) =
     (if K (Suc r) \<and> lo \<le> Suc r then (if lo \<le> r then diag_run K lo r + 1 else 1) else 0)"

lemma diag_run_not: "\<not> K r \<Longrightarrow> diag_run K lo r = 0"
  by (cases r) auto

lemma diag_run_pos: "K r \<Longrightarrow> lo \<le> r \<Longrightarrow> 1 \<le> diag_run K lo r"
  by (cases r) auto

lemma diag_run_first: "K lo \<Longrightarrow> diag_run K lo lo = 1"
  by (cases lo) auto

lemma diag_run_step: "K r \<Longrightarrow> lo < r \<Longrightarrow> diag_run K lo r = diag_run K lo (r - 1) + 1"
  by (cases r) auto

subsection \<open>The scan stays on the diagonal\<close>

text \<open>
  The state of \<^verbatim>\<open>find_longest_match(lo, hi, lo, hi)\<close> on \<open>a = b\<close> before row \<open>i\<close>: the best
  block is on the diagonal and at least as long as every diagonal run seen so far, and an
  entry of \<^verbatim>\<open>j2len\<close> is at most the diagonal run at the smaller of its two positions.
\<close>

definition row_ok :: "(nat \<Rightarrow> bool) \<Rightarrow> nat \<Rightarrow> nat \<Rightarrow> nat \<Rightarrow> (nat \<rightharpoonup> nat) \<Rightarrow> bool" where
  "row_ok K lo hi i j2len =
     ((\<forall>j k. j2len j = Some k \<longrightarrow>
          lo \<le> j \<and> j < hi \<and> lo < i \<and> 1 \<le> k \<and> k \<le> diag_run K lo (min j (i - 1)))
      \<and> (lo < i \<and> K (i - 1) \<longrightarrow> j2len (i - 1) = Some (diag_run K lo (i - 1))))"

definition diag_ok :: "(nat \<Rightarrow> bool) \<Rightarrow> nat \<Rightarrow> nat \<Rightarrow> block \<Rightarrow> bool" where
  "diag_ok K lo i blk =
     (case blk of (besti, bestj, bestsize) \<Rightarrow>
        besti = bestj \<and> (\<forall>r. lo \<le> r \<and> r < i \<longrightarrow> diag_run K lo r \<le> bestsize))"

lemma j2lenget_diag:
  assumes prev: "row_ok K lo hi i j2len"
      and i: "lo \<le> i" and j: "lo \<le> j" and K: "K i" "K j"
  shows "j2lenget j2len j + 1 \<le> diag_run K lo (min j i)"
    and "j = i \<Longrightarrow> j2lenget j2len j + 1 = diag_run K lo i"
proof -
  have Km: "K (min j i)" using K by (simp add: min_def)
  have lom: "lo \<le> min j i" using i j by simp
  show "j2lenget j2len j + 1 \<le> diag_run K lo (min j i)"
  proof (cases "j = 0 \<or> j2len (j - 1) = None")
    case True
    then have "j2lenget j2len j = 0"
      by (auto simp: j2lenget_def split: nat.splits)
    then show ?thesis using diag_run_pos[of K "min j i" lo] Km lom by simp
  next
    case False
    then obtain k where k: "j2len (j - 1) = Some k" and j0: "j \<noteq> 0" by auto
    then have get: "j2lenget j2len j = k"
      by (auto simp: j2lenget_def split: nat.splits)
    from prev k have b: "lo \<le> j - 1" "lo < i" "k \<le> diag_run K lo (min (j - 1) (i - 1))"
      by (auto simp: row_ok_def)
    have "lo < min j i" using b j0 by simp
    with diag_run_step[of K "min j i" lo] Km
    have "diag_run K lo (min j i) = diag_run K lo (min j i - 1) + 1" by simp
    moreover have "min j i - 1 = min (j - 1) (i - 1)" by (simp add: min_def)
    ultimately show ?thesis using b get by simp
  qed
  show "j2lenget j2len j + 1 = diag_run K lo i" if "j = i"
  proof (cases "lo < i")
    case False
    with i have eq: "i = lo" by simp
    have "j2len j' = None" for j'
      using prev False by (cases "j2len j'") (auto simp: row_ok_def)
    then have "j2lenget j2len j = 0"
      by (auto simp: j2lenget_def split: nat.splits)
    then show ?thesis using diag_run_first[of K lo] K eq by simp
  next
    case True
    then have i0: "i \<noteq> 0" by simp
    have step: "diag_run K lo i = diag_run K lo (i - 1) + 1"
      using diag_run_step[of K i lo] K(1) True by simp
    show ?thesis
    proof (cases "K (i - 1)")
      case True
      with prev \<open>lo < i\<close> have "j2len (i - 1) = Some (diag_run K lo (i - 1))"
        by (simp add: row_ok_def)
      then have "j2lenget j2len i = diag_run K lo (i - 1)"
        using i0 by (auto simp: j2lenget_def split: nat.splits)
      then show ?thesis using step that by simp
    next
      case False
      then have z: "diag_run K lo (i - 1) = 0" using diag_run_not[of K "i - 1" lo] by simp
      have "j2len (i - 1) = None"
      proof (cases "j2len (i - 1)")
        case (Some k)
        with prev have "1 \<le> k \<and> k \<le> diag_run K lo (min (i - 1) (i - 1))"
          unfolding row_ok_def by blast
        then have "1 \<le> diag_run K lo (i - 1)" by simp
        with z have False by linarith
        then show ?thesis ..
      qed simp
      then have "j2lenget j2len i = 0"
        by (auto simp: j2lenget_def split: nat.splits)
      then show ?thesis using step z that by simp
    qed
  qed
qed

lemma row_done:
  assumes i: "lo \<le> i"
      and d: "diag_ok K lo i (besti, bestj, bestsize)"
      and new: "\<forall>j k. new j = Some k \<longrightarrow> lo \<le> j \<and> j < hi \<and> 1 \<le> k \<and> k \<le> diag_run K lo (min j i)"
      and at: "new i = Some (diag_run K lo i)" "diag_run K lo i \<le> bestsize"
  shows "row_ok K lo hi (Suc i) new \<and> diag_ok K lo (Suc i) (besti, bestj, bestsize)"
proof -
  have lt: "lo < Suc i" using i by simp
  have "row_ok K lo hi (Suc i) new"
    unfolding row_ok_def using new at(1) lt by auto
  moreover have "diag_run K lo r \<le> bestsize" if "lo \<le> r" "r < Suc i" for r
  proof (cases "r = i")
    case True
    with at(2) show ?thesis by simp
  next
    case False
    with that have "r < i" by simp
    with d that(1) show ?thesis by (simp add: diag_ok_def)
  qed
  ultimately show ?thesis using d by (simp add: diag_ok_def)
qed

text \<open>
  The inner loop over the ascending positions \<open>js\<close> of \<^verbatim>\<open>a[i]\<close>: the diagonal position \<open>i\<close>
  is either still ahead in \<open>js\<close> or already recorded with the diagonal run.
\<close>

lemma flm_inner_diag:
  assumes prev: "row_ok K lo hi i j2len"
      and i: "lo \<le> i" "i < hi" and Ki: "K i"
  shows "sorted_wrt (<) js \<Longrightarrow> \<forall>j \<in> set js. K j \<Longrightarrow>
         diag_ok K lo i (besti, bestj, bestsize) \<Longrightarrow>
         \<forall>j k. new j = Some k \<longrightarrow> lo \<le> j \<and> j < hi \<and> 1 \<le> k \<and> k \<le> diag_run K lo (min j i) \<Longrightarrow>
         i \<in> set js \<or> (new i = Some (diag_run K lo i) \<and> diag_run K lo i \<le> bestsize) \<Longrightarrow>
         flm_inner j2len i lo hi js (new, besti, bestj, bestsize) = (new', best') \<Longrightarrow>
         row_ok K lo hi (Suc i) new' \<and> diag_ok K lo (Suc i) best'"
proof (induction js arbitrary: new besti bestj bestsize)
  case Nil
  then have "new' = new" "best' = (besti, bestj, bestsize)"
    and d: "new i = Some (diag_run K lo i)" "diag_run K lo i \<le> bestsize"
    by auto
  then show ?case
    using row_done[OF i(1) Nil.prems(3,4)] by simp
next
  case (Cons j js)
  from Cons.prems(1) have sorted: "sorted_wrt (<) js" and above: "\<forall>j' \<in> set js. j < j'"
    by auto
  from Cons.prems(2) have Kjs: "\<forall>j \<in> set js. K j" and Kj: "K j" by auto
  show ?case
  proof (cases "j < lo")
    case True
    with i have "i \<noteq> j" by simp
    with Cons.prems(5) have ahead: "i \<in> set js \<or> (new i = Some (diag_run K lo i) \<and> diag_run K lo i \<le> bestsize)"
      by auto
    from Cons.prems(6) True
    have "flm_inner j2len i lo hi js (new, besti, bestj, bestsize) = (new', best')" by simp
    from Cons.IH[OF sorted Kjs Cons.prems(3,4) ahead this] show ?thesis .
  next
    case lo: False
    show ?thesis
    proof (cases "hi \<le> j")
      case True
      with i above have "i \<notin> set (j # js)" by auto
      with Cons.prems(5) have d: "new i = Some (diag_run K lo i)" "diag_run K lo i \<le> bestsize"
        by auto
      from Cons.prems(6) lo True have "new' = new" "best' = (besti, bestj, bestsize)"
        by auto
      then show ?thesis
        using row_done[OF i(1) Cons.prems(3,4) d] by simp
    next
      case hi: False
      define k where "k = j2lenget j2len j + 1"
      from lo have loj: "lo \<le> j" by simp
      have kle: "k \<le> diag_run K lo (min j i)"
        and kdiag: "j = i \<Longrightarrow> k = diag_run K lo i"
        using j2lenget_diag[OF prev i(1) loj Ki Kj] by (simp_all add: k_def)
      have k1: "1 \<le> k" by (simp add: k_def)
      have new_ok: "\<forall>j' k'. (new(j \<mapsto> k)) j' = Some k' \<longrightarrow>
          lo \<le> j' \<and> j' < hi \<and> 1 \<le> k' \<and> k' \<le> diag_run K lo (min j' i)"
        using Cons.prems(4) kle k1 loj hi by auto
      from Cons.prems(3) have seen: "\<forall>r. lo \<le> r \<and> r < i \<longrightarrow> diag_run K lo r \<le> bestsize"
        and eq: "besti = bestj"
        by (auto simp: diag_ok_def)
      have nogrow: "k \<le> bestsize" if "j \<noteq> i"
      proof (cases "j < i")
        case True
        then have "min j i = j" by simp
        with kle seen loj True show ?thesis by fastforce
      next
        case False
        with that have gt: "i < j" by simp
        with above have "i \<notin> set (j # js)" by auto
        with Cons.prems(5) have "diag_run K lo i \<le> bestsize" by auto
        moreover from gt have "min j i = i" by simp
        ultimately show ?thesis using kle by simp
      qed
      show ?thesis
      proof (cases "k > bestsize")
        case True
        with nogrow have ji: "j = i" by auto
        have run: "flm_inner j2len i lo hi js (new(j \<mapsto> k), i + 1 - k, j + 1 - k, k) = (new', best')"
          using Cons.prems(6) lo hi True by (simp add: k_def Let_def)
        have d: "diag_ok K lo i (i + 1 - k, j + 1 - k, k)"
          using seen True ji by (auto simp: diag_ok_def)
        have ahead: "i \<in> set js \<or> ((new(j \<mapsto> k)) i = Some (diag_run K lo i) \<and> diag_run K lo i \<le> k)"
          using ji kdiag by simp
        from Cons.IH[OF sorted Kjs d new_ok ahead run] show ?thesis .
      next
        case False
        have run: "flm_inner j2len i lo hi js (new(j \<mapsto> k), besti, bestj, bestsize) = (new', best')"
          using Cons.prems(6) lo hi False by (simp add: k_def Let_def)
        have ahead: "i \<in> set js \<or> ((new(j \<mapsto> k)) i = Some (diag_run K lo i) \<and> diag_run K lo i \<le> bestsize)"
        proof (cases "j = i")
          case True
          with kdiag False show ?thesis by simp
        next
          case False
          with Cons.prems(5) show ?thesis by auto
        qed
        from Cons.IH[OF sorted Kjs Cons.prems(3) new_ok ahead run] show ?thesis .
      qed
    qed
  qed
qed

lemma flm_scan_diag:
  assumes idx: "index_ok s b2j" and hi: "hi \<le> length s" and le: "lo \<le> hi"
  shows "fst (snd (flm_scan s b2j lo hi lo hi)) = fst (snd (snd (flm_scan s b2j lo hi lo hi)))"
proof -
  define K where "K = (\<lambda>r. b2j (s ! r) \<noteq> None)"
  let ?P = "\<lambda>i st. row_ok K lo hi i (fst st) \<and> diag_ok K lo i (snd st)"
  have "?P hi (flm_scan s b2j lo hi lo hi)"
  proof (rule flm_scan_induct[where P = ?P, OF _ _ le])
    show "row_ok K lo hi lo (fst (Map.empty, lo, lo, 0::nat)) \<and> diag_ok K lo lo (snd (Map.empty, lo, lo, 0::nat))"
      by (simp add: row_ok_def diag_ok_def)
  next
    fix i st
    assume i: "lo \<le> i" "i < hi"
      and inv: "row_ok K lo hi i (fst st) \<and> diag_ok K lo i (snd st)"
    obtain j2len besti bestj bestsize where st: "st = (j2len, besti, bestj, bestsize)"
      by (cases st) auto
    from inv st have prev: "row_ok K lo hi i j2len" and d: "diag_ok K lo i (besti, bestj, bestsize)"
      by simp_all
    have "row_ok K lo hi (Suc i) (fst (flm_row s b2j lo hi i st))
          \<and> diag_ok K lo (Suc i) (snd (flm_row s b2j lo hi i st))"
    proof (cases "b2j (s ! i)")
      case None
      then have nK: "\<not> K i" by (simp add: K_def)
      from None st have row: "flm_row s b2j lo hi i st = (Map.empty, besti, bestj, bestsize)"
        by (simp add: flm_row_def)
      have "row_ok K lo hi (Suc i) Map.empty"
        using nK by (simp add: row_ok_def)
      moreover have "diag_run K lo r \<le> bestsize" if "lo \<le> r" "r < Suc i" for r
      proof (cases "r = i")
        case True
        with nK diag_run_not[of K i lo] show ?thesis by simp
      next
        case False
        with that have "r < i" by simp
        with d that(1) show ?thesis by (simp add: diag_ok_def)
      qed
      ultimately show ?thesis using d row by (simp add: diag_ok_def)
    next
      case (Some js)
      then have Ki: "K i" by (simp add: K_def)
      from idx Some have sorted: "sorted_wrt (<) js"
        and set: "set js = {j. j < length s \<and> s ! j = s ! i}"
        by (auto simp: index_ok_def)
      from set Some have Kjs: "\<forall>j \<in> set js. K j" by (auto simp: K_def)
      from set i hi have mem: "i \<in> set js" by simp
      obtain new' best' where r: "flm_inner j2len i lo hi js (Map.empty, besti, bestj, bestsize) = (new', best')"
        by (cases "flm_inner j2len i lo hi js (Map.empty, besti, bestj, bestsize)") auto
      have "row_ok K lo hi (Suc i) new' \<and> diag_ok K lo (Suc i) best'"
        by (rule flm_inner_diag[OF prev i Ki sorted Kjs d _ _ r]) (use mem in simp_all)
      moreover have "flm_row s b2j lo hi i st = (new', best')"
        using Some st r by (simp add: flm_row_def)
      ultimately show ?thesis by simp
    qed
    then show "row_ok K lo hi (Suc i) (fst (flm_row s b2j lo hi i st))
          \<and> diag_ok K lo (Suc i) (snd (flm_row s b2j lo hi i st))" .
  qed
  then show ?thesis by (auto simp: diag_ok_def split: prod.splits)
qed

subsection \<open>The extensions keep the diagonal\<close>

definition on_diag :: "block \<Rightarrow> bool" where
  "on_diag blk = (case blk of (besti, bestj, bestsize) \<Rightarrow> besti = bestj)"

definition size_of :: "block \<Rightarrow> nat" where
  "size_of blk = (case blk of (besti, bestj, bestsize) \<Rightarrow> bestsize)"

lemma extend_left_diag:
  "on_diag blk \<Longrightarrow>
     on_diag (extend_left junk a b alo blo blk) \<and> size_of blk \<le> size_of (extend_left junk a b alo blo blk)"
proof (induction junk a b alo blo blk rule: extend_left.induct)
  case (1 junk a b alo blo besti bestj bestsize)
  show ?case
  proof (cases "besti > alo \<and> bestj > blo \<and> isbjunk (b ! (bestj - 1)) = junk \<and> a ! (besti - 1) = b ! (bestj - 1)")
    case True
    have "on_diag (besti - 1, bestj - 1, bestsize + 1)"
      using "1.prems" by (simp add: on_diag_def)
    with "1.IH" True show ?thesis
      by (subst (1 2) extend_left.simps) (simp add: size_of_def)
  next
    case False
    with "1.prems" show ?thesis by (subst (1 2) extend_left.simps) auto
  qed
qed

lemma extend_right_diag:
  "on_diag blk \<Longrightarrow>
     on_diag (extend_right junk a b ahi bhi blk) \<and> size_of blk \<le> size_of (extend_right junk a b ahi bhi blk)"
proof (induction junk a b ahi bhi blk rule: extend_right.induct)
  case (1 junk a b ahi bhi besti bestj bestsize)
  show ?case
  proof (cases "besti + bestsize < ahi \<and> bestj + bestsize < bhi \<and> isbjunk (b ! (bestj + bestsize)) = junk \<and> a ! (besti + bestsize) = b ! (bestj + bestsize)")
    case True
    have "on_diag (besti, bestj, bestsize + 1)"
      using "1.prems" by (simp add: on_diag_def)
    with "1.IH" True show ?thesis
      by (subst (1 2) extend_right.simps) (simp add: size_of_def)
  next
    case False
    with "1.prems" show ?thesis by (subst (1 2) extend_right.simps) auto
  qed
qed

lemma find_longest_match_diag:
  assumes idx: "index_ok s b2j" and hi: "hi \<le> length s" and lt: "lo < hi"
  shows "\<exists>p k. find_longest_match s s b2j lo hi lo hi = (p, p, k) \<and> 1 \<le> k \<and> lo \<le> p \<and> p + k \<le> hi"
proof -
  define b0 where "b0 = snd (flm_scan s b2j lo hi lo hi)"
  define b1 where "b1 = extend_left False s s lo lo b0"
  define b2 where "b2 = extend_right False s s hi hi b1"
  define b3 where "b3 = extend_left True s s lo lo b2"
  define b4 where "b4 = extend_right True s s hi hi b3"
  have flm: "find_longest_match s s b2j lo hi lo hi = b4"
    by (simp add: find_longest_match_def b0_def b1_def b2_def b3_def b4_def)
  have d0: "on_diag b0"
    using flm_scan_diag[OF idx hi, of lo] lt by (cases b0) (auto simp: b0_def on_diag_def)
  have d1: "on_diag b1" using extend_left_diag[OF d0, of False s s lo lo] by (simp add: b1_def)
  have ok1: "block_ok lo hi lo hi b1"
    unfolding b1_def b0_def by (intro extend_left_ok flm_scan_ok)
  have d2: "on_diag b2" using extend_right_diag[OF d1, of False s s hi hi] by (simp add: b2_def)
  have s2: "1 \<le> size_of b2"
  proof (cases "size_of b1 = 0")
    case False
    with extend_right_diag[OF d1, of False s s hi hi] show ?thesis by (simp add: b2_def)
  next
    case True
    with ok1 have b1: "b1 = (lo, lo, 0)"
      by (cases b1) (auto simp: block_ok_def size_of_def)
    have "b2 = extend_right False s s hi hi (lo, lo, 0 + 1)"
      unfolding b2_def b1 using lt
      by (subst extend_right.simps) (simp add: isbjunk_def bjunk_def)
    moreover have "on_diag (lo, lo, 0 + 1)" by (simp add: on_diag_def)
    from extend_right_diag[OF this, of False s s hi hi]
    have "size_of (lo, lo, 0 + 1) \<le> size_of (extend_right False s s hi hi (lo, lo, 0 + 1))"
      by simp
    ultimately show ?thesis by (simp add: size_of_def)
  qed
  have d3: "on_diag b3" and s3: "size_of b2 \<le> size_of b3"
    using extend_left_diag[OF d2, of True s s lo lo] by (simp_all add: b3_def)
  have d4: "on_diag b4" and s4: "size_of b3 \<le> size_of b4"
    using extend_right_diag[OF d3, of True s s hi hi] by (simp_all add: b4_def)
  obtain p q k where b4: "b4 = (p, q, k)" by (cases b4) auto
  with d4 have pq: "q = p" by (simp add: on_diag_def)
  from s2 s3 s4 b4 have k: "1 \<le> k" by (simp add: size_of_def)
  from find_longest_match_ok[of lo hi lo hi s s b2j] flm b4 k pq
  have "lo \<le> p \<and> p + k \<le> hi" by (auto simp: block_ok_def)
  with flm b4 pq k show ?thesis by simp
qed

subsection \<open>Every position is matched\<close>

definition diag_window :: "nat \<Rightarrow> window \<Rightarrow> bool" where
  "diag_window n w = (case w of (alo, ahi, blo, bhi) \<Rightarrow> alo = blo \<and> ahi = bhi \<and> alo \<le> ahi \<and> ahi \<le> n)"

lemma loop_diag_total:
  "a = b \<Longrightarrow> index_ok b b2j \<Longrightarrow> \<forall>w \<in> set queue. diag_window (length b) w \<Longrightarrow>
     total_size (get_matching_blocks_loop a b b2j queue blocks)
       = total_size blocks + sum_list (map window_cap queue)"
proof (induction a b b2j queue blocks rule: get_matching_blocks_loop.induct)
  case (1 a b b2j matching_blocks)
  then show ?case by simp
next
  case (2 a b b2j alo ahi blo bhi queue matching_blocks)
  from "2.prems"(3) have w: "alo = blo" "ahi = bhi" "alo \<le> ahi" "ahi \<le> length b"
    and rest: "\<forall>w \<in> set queue. diag_window (length b) w"
    by (auto simp: diag_window_def)
  obtain i j k where flm: "find_longest_match a b b2j alo ahi blo bhi = (i, j, k)"
    by (cases "find_longest_match a b b2j alo ahi blo bhi") auto
  show ?case
  proof (cases "alo < ahi")
    case False
    with w have eq: "alo = ahi" by simp
    have k0: "k = 0"
    proof (rule ccontr)
      assume "k \<noteq> 0"
      from find_longest_match_nonempty[OF flm this] eq show False using \<open>k \<noteq> 0\<close> by simp
    qed
    have c0: "window_cap (alo, ahi, blo, bhi) = 0"
      using eq by (simp add: window_cap_def)
    have step: "get_matching_blocks_loop a b b2j ((alo, ahi, blo, bhi) # queue) matching_blocks
        = get_matching_blocks_loop a b b2j queue matching_blocks"
      using flm k0 by simp
    have "total_size (get_matching_blocks_loop a b b2j ((alo, ahi, blo, bhi) # queue) matching_blocks)
        = total_size (get_matching_blocks_loop a b b2j queue matching_blocks)"
      by (simp only: step)
    also have "\<dots> = total_size matching_blocks + sum_list (map window_cap queue)"
      using "2.IH"(2)[OF flm[symmetric] refl _ "2.prems"(1,2) rest] k0 by simp
    also have "\<dots> = total_size matching_blocks + sum_list (map window_cap ((alo, ahi, blo, bhi) # queue))"
      using c0 by simp
    finally show ?thesis .
  next
    case True
    from find_longest_match_diag[OF "2.prems"(2) w(4) True] "2.prems"(1) w(1,2) flm
    have ij: "j = i" and k: "1 \<le> k" and bounds: "alo \<le> i" "i + k \<le> ahi"
      by auto
    let ?r = "if i + k < ahi \<and> j + k < bhi then [(i + k, ahi, j + k, bhi)] else []"
    let ?l = "if alo < i \<and> blo < j then [(alo, i, blo, j)] else []"
    have diag: "\<forall>w \<in> set (?r @ ?l @ queue). diag_window (length b) w"
      using rest w ij bounds by (auto simp: diag_window_def)
    have cap: "sum_list (map window_cap (?r @ ?l)) + k = window_cap (alo, ahi, blo, bhi)"
      using w ij bounds by (auto simp: window_cap_def)
    from k have k0: "k \<noteq> 0" by simp
    have step: "get_matching_blocks_loop a b b2j ((alo, ahi, blo, bhi) # queue) matching_blocks =
        get_matching_blocks_loop a b b2j (?r @ ?l @ queue) (matching_blocks @ [(i, j, k)])"
      using flm k0 by simp
    have "total_size (get_matching_blocks_loop a b b2j ((alo, ahi, blo, bhi) # queue) matching_blocks)
        = total_size (get_matching_blocks_loop a b b2j (?r @ ?l @ queue) (matching_blocks @ [(i, j, k)]))"
      by (simp only: step)
    also have "\<dots> = total_size (matching_blocks @ [(i, j, k)]) + sum_list (map window_cap (?r @ ?l @ queue))"
      by (rule "2.IH"(1)[OF flm[symmetric] refl k0 "2.prems"(1,2) diag])
    also have "\<dots> = total_size matching_blocks + (sum_list (map window_cap (?r @ ?l)) + k)
                       + sum_list (map window_cap queue)"
      by simp
    also have "\<dots> = total_size matching_blocks + sum_list (map window_cap ((alo, ahi, blo, bhi) # queue))"
      by (simp only: cap) simp
    finally show ?thesis .
  qed
qed

lemma ratio_same: "ratio s s = 1"
proof -
  have "total_size (get_matching_blocks_loop s s (chain_b s) [(0, length s, 0, length s)] [])
          = length s"
    using loop_diag_total[where a = s and b = s and ?b2j = "chain_b s"
        and queue = "[(0, length s, 0, length s)]" and blocks = "[]"] chain_b_ok[of s]
    by (simp add: diag_window_def window_cap_def)
  then show ?thesis
    by (simp add: ratio_total_size calculate_ratio_def)
qed

text \<open>
  C3. The similarity ratio of a string with itself is 1, also for a string of 200
  characters or more, where the popular characters are left out of the index.
\<close>

theorem ratio_self: "ratio (s :: string) s = 1"
  by (rule ratio_same)

theorem ratio_self_witness: "ratio ''fuzzy match'' ''fuzzy match'' = 1"
  using ratio_self[of "''fuzzy match''"] .

end
